theory Spec2Isabelle
  imports Main "HOL-Library.Char_ord" "HOL-Library.List_Lexorder"
begin

section \<open>Python values used by \<open>cicd/generate-tox-ini.py\<close>\<close>

text \<open>
  Strings are lists of characters with code points below 256; Python's \<open>int\<close> is
  \<open>int\<close>, with CPython's limit on the digits of a number that is read from or written
  to a string; a tuple of integers is an \<open>int list\<close>. Every exception the script can raise
  on the paths modelled here is a value of \<open>error\<close>, and a function that can raise
  returns \<open>error + 'a\<close>.
\<close>

datatype error =
  ValueError | IndexError | SyntaxError | TypeError | AttributeError | CalledProcessError

fun traverse :: "('a \<Rightarrow> error + 'b) \<Rightarrow> 'a list \<Rightarrow> error + 'b list" where
  "traverse f [] = Inr []"
| "traverse f (x # xs) =
     (case f x of
        Inl e \<Rightarrow> Inl e
      | Inr y \<Rightarrow> (case traverse f xs of Inl e \<Rightarrow> Inl e | Inr ys \<Rightarrow> Inr (y # ys)))"

definition nl :: char where
  "nl = CHR 0x0A"

definition is_digit :: "char \<Rightarrow> bool" where
  "is_digit c = (48 \<le> (of_char c :: nat) \<and> (of_char c :: nat) \<le> 57)"

definition is_space :: "char \<Rightarrow> bool" where
  \<comment> \<open>\<open>str.isspace\<close> below code point 256: this is what \<open>\<S>\<close> excludes\<close>
  "is_space c = ((of_char c :: nat) \<in> {9, 10, 11, 12, 13, 28, 29, 30, 31, 32, 133, 160})"

definition is_int_space :: "char \<Rightarrow> bool" where
  \<comment> \<open>what \<open>int\<close> skips around a number: the six ASCII blanks and, of the other
      characters, those that are whitespace; the separators U+001C to U+001F are not
      skipped\<close>
  "is_int_space c = ((of_char c :: nat) \<in> {9, 10, 11, 12, 13, 32, 133, 160})"

definition int_max_str_digits :: nat where
  \<comment> \<open>\<open>sys.int_max_str_digits\<close>, at the default of CPython: \<open>int\<close> of a string with more
      digits, and the text of an integer with more digits, raise \<open>ValueError\<close>\<close>
  "int_max_str_digits = 4300"

definition starts_with :: "string \<Rightarrow> string \<Rightarrow> bool" where
  \<comment> \<open>\<open>s.startswith(p)\<close>\<close>
  "starts_with p s = (take (length p) s = p)"

function split_str :: "string \<Rightarrow> string \<Rightarrow> string list" where
  \<comment> \<open>\<open>s.split(sep)\<close> for a non-empty separator\<close>
  "split_str sep [] = [[]]"
| "split_str sep (c # cs) =
     (if sep \<noteq> [] \<and> starts_with sep (c # cs)
      then [] # split_str sep (drop (length sep) (c # cs))
      else (case split_str sep cs of [] \<Rightarrow> [[c]] | w # ws \<Rightarrow> (c # w) # ws))"
  by pat_completeness auto
termination
  by (relation "measure (\<lambda>(sep, s). length s)") (auto simp: neq_Nil_conv)

fun digit_runs_from :: "string \<Rightarrow> string \<Rightarrow> string list" where
  \<comment> \<open>\<open>re.findall(r'(\<d>+)', s)\<close>, with the digit run read so far as first argument\<close>
  "digit_runs_from cur [] = (if cur = [] then [] else [cur])"
| "digit_runs_from cur (c # cs) =
     (if is_digit c then digit_runs_from (cur @ [c]) cs
      else (if cur = [] then [] else [cur]) @ digit_runs_from [] cs)"

definition digit_runs :: "string \<Rightarrow> string list" where
  "digit_runs s = digit_runs_from [] s"

definition digits_value :: "string \<Rightarrow> int" where
  "digits_value ds = foldl (\<lambda>acc c. 10 * acc + (int (of_char c) - 48)) 0 ds"

fun grouped_digits :: "string \<Rightarrow> bool" where
  \<comment> \<open>decimal digits, with single underscores allowed between two digits\<close>
  "grouped_digits [] = False"
| "grouped_digits [c] = is_digit c"
| "grouped_digits (c # d # r) =
     (is_digit c \<and> (if d = CHR ''_'' then grouped_digits r else grouped_digits (d # r)))"

definition strip :: "string \<Rightarrow> string" where
  "strip s = rev (dropWhile is_int_space (rev (dropWhile is_int_space s)))"

definition py_int :: "string \<Rightarrow> error + int" where
  \<comment> \<open>\<open>int(s)\<close>: surrounding whitespace, an optional sign, decimal digits, no more of
      them than the limit\<close>
  "py_int s =
     (let t = strip s;
          neg = (t \<noteq> [] \<and> hd t = CHR ''-'');
          body = (if t \<noteq> [] \<and> (hd t = CHR ''-'' \<or> hd t = CHR ''+'') then tl t else t)
      in if grouped_digits body
            \<and> length (filter (\<lambda>c. c \<noteq> CHR ''_'') body) \<le> int_max_str_digits
         then Inr ((if neg then - 1 else 1) * digits_value (filter (\<lambda>c. c \<noteq> CHR ''_'') body))
         else Inl ValueError)"

section \<open>Version comparison\<close>

definition version_key :: "string \<Rightarrow> error + int list" where
  \<comment> \<open>\<open>val = val.split('a')[0] + '.0.0'\<close>;
      \<open>tuple([int(x) for x in re.findall(r'(\<d>+)', val)][:3])\<close>\<close>
  "version_key val =
     (case traverse py_int (digit_runs (hd (split_str ''a'' val) @ ''.0.0'')) of
        Inl e \<Rightarrow> Inl e
      | Inr nums \<Rightarrow> Inr (take 3 nums))"


fun digits_of_nat :: "nat \<Rightarrow> string" where
  "digits_of_nat n =
     (if n < 10 then [char_of (48 + n)]
      else digits_of_nat (n div 10) @ [char_of (48 + n mod 10)])"

definition str_of_int :: "int \<Rightarrow> error + string" where
  \<comment> \<open>\<open>f'{x}'\<close> for an integer\<close>
  "str_of_int i =
     (if length (digits_of_nat (nat \<bar>i\<bar>)) > int_max_str_digits then Inl ValueError
      else if i < 0 then Inr (CHR ''-'' # digits_of_nat (nat (- i)))
      else Inr (digits_of_nat (nat i)))"

fun join :: "string \<Rightarrow> string list \<Rightarrow> string" where
  \<comment> \<open>\<open>sep.join(xs)\<close>\<close>
  "join sep [] = []"
| "join sep [x] = x"
| "join sep (x # y # r) = x @ sep @ join sep (y # r)"

definition wildcard_stem :: "string \<Rightarrow> string option" where
  \<comment> \<open>\<open>re.search(r'\.?\*$', val)\<close> and, when it matches, \<open>re.sub(r'\.?\*$', '', val)\<close>;
      \<open>$\<close> also matches just before a newline that ends the string\<close>
  "wildcard_stem val =
     (let tail = (if val \<noteq> [] \<and> last val = nl then [nl] else []);
          core = (if val \<noteq> [] \<and> last val = nl then butlast val else val)
      in if core \<noteq> [] \<and> last core = CHR ''*''
         then Some ((if butlast core \<noteq> [] \<and> last (butlast core) = CHR ''.''
                     then butlast (butlast core) else butlast core) @ tail)
         else None)"

definition expand_wildcard :: "string \<Rightarrow> error + string" where
  \<comment> \<open>the body of the loop of \<open>expand_wildcards\<close>\<close>
  "expand_wildcard val =
     (case wildcard_stem val of
        None \<Rightarrow> Inr val
      | Some stem \<Rightarrow>
          (case traverse py_int (split_str ''.'' stem) of
             Inl e \<Rightarrow> Inl e
           | Inr next_val \<Rightarrow>
               if next_val = [] then Inl IndexError
               else (case traverse str_of_int (butlast next_val @ [last next_val + 1]) of
                       Inl e \<Rightarrow> Inl e
                     | Inr texts \<Rightarrow>
                         Inr (''>='' @ stem @ '',<='' @ join ''.'' texts @ ''a0''))))"

definition expand_wildcards :: "string list \<Rightarrow> error + string list" where
  "expand_wildcards vals = traverse expand_wildcard vals"

definition is_opchar :: "char \<Rightarrow> bool" where
  "is_opchar c = (c \<in> set ''<>=!'')"

definition match_clause :: "string \<Rightarrow> (string \<times> string) list" where
  \<comment> \<open>\<open>re.findall(r'^([<>=!]*)(\<S>+)$', op)\<close>: at most one match; the first group is greedy
      but leaves one character for the second\<close>
  "match_clause op =
     (let core = (if op \<noteq> [] \<and> last op = nl then butlast op else op)
      in if core \<noteq> [] \<and> list_all (\<lambda>c. \<not> is_space c) core
         then (if takeWhile is_opchar core = core then [(butlast core, [last core])]
               else [(takeWhile is_opchar core, dropWhile is_opchar core)])
         else [])"

type_synonym comparison = "int list \<times> string \<times> int list"

definition or_term :: "int list \<Rightarrow> string \<Rightarrow> error + comparison" where
  \<comment> \<open>one round of the inner loop of \<open>check_version\<close>: the text
      \<open>f'{pkg_ver} {oper} {version_key(ver)}'\<close> kept as its three parts\<close>
  "or_term pkg_ver op =
     (case match_clause op of
        [] \<Rightarrow> Inl IndexError
      | (oper, ver) # _ \<Rightarrow>
          (case version_key ver of
             Inl e \<Rightarrow> Inl e
           | Inr v \<Rightarrow>
               Inr (pkg_ver,
                    (if oper = ''='' then ''=='' else if oper = [] then ''>='' else oper),
                    v)))"

definition and_terms :: "int list \<Rightarrow> string \<Rightarrow> error + comparison list list" where
  \<comment> \<open>the two loops over \<open>spec.split(',')\<close> and \<open>ap.split('|')\<close>\<close>
  "and_terms pkg_ver spec =
     traverse (\<lambda>ap. traverse (or_term pkg_ver) (split_str ''|'' ap)) (split_str '','' spec)"

definition apply_oper :: "comparison \<Rightarrow> error + bool" where
  \<comment> \<open>evaluating \<open>(a) oper (b)\<close> on two tuples; \<open><<\<close> and \<open>>>\<close> parse but are not
      defined on tuples\<close>
  "apply_oper t =
     (case t of (a, oper, b) \<Rightarrow>
        if oper = ''<'' then Inr (a < b)
        else if oper = ''<='' then Inr (a \<le> b)
        else if oper = ''>'' then Inr (b < a)
        else if oper = ''>='' then Inr (b \<le> a)
        else if oper = ''=='' then Inr (a = b)
        else if oper = ''!='' then Inr (a \<noteq> b)
        else Inl TypeError)"

fun eval_or :: "comparison list \<Rightarrow> error + bool" where
  "eval_or [] = Inr False"
| "eval_or (t # ts) =
     (case apply_oper t of
        Inl e \<Rightarrow> Inl e
      | Inr b \<Rightarrow> if b then Inr True else eval_or ts)"

fun eval_and :: "comparison list list \<Rightarrow> error + bool" where
  "eval_and [] = Inr True"
| "eval_and (c # cs) =
     (case eval_or c of
        Inl e \<Rightarrow> Inl e
      | Inr b \<Rightarrow> if b then eval_and cs else Inr False)"

definition valid_oper :: "string \<Rightarrow> bool" where
  \<comment> \<open>the strings over \<open><>=!\<close> that are one binary operator of Python\<close>
  "valid_oper oper = (oper \<in> set [''<'', ''<='', ''>'', ''>='', ''=='', ''!='', ''<<'', ''>>''])"

definition py_eval :: "comparison list list \<Rightarrow> error + bool" where
  \<comment> \<open>\<open>eval(' and '.join(expr))\<close>: the text is compiled first, then evaluated from left
      to right, \<open>and\<close> and \<open>or\<close> stopping as soon as the result is known\<close>
  "py_eval expr =
     (if expr = [] \<or> (\<exists>c \<in> set expr. \<exists>t \<in> set c. \<not> valid_oper (fst (snd t)))
      then Inl SyntaxError
      else eval_and expr)"

fun check_specs :: "int list \<Rightarrow> string list \<Rightarrow> error + bool" where
  \<comment> \<open>the loop of \<open>check_version\<close> over the expanded specs\<close>
  "check_specs pkg_ver [] = Inr False"
| "check_specs pkg_ver (spec # rest) =
     (case and_terms pkg_ver spec of
        Inl e \<Rightarrow> Inl e
      | Inr expr \<Rightarrow>
          (case py_eval expr of
             Inl e \<Rightarrow> Inl e
           | Inr b \<Rightarrow> if b then Inr True else check_specs pkg_ver rest))"

definition check_version :: "string \<Rightarrow> string list \<Rightarrow> error + bool" where
  "check_version pkg_ver specs =
     (case version_key pkg_ver of
        Inl e \<Rightarrow> Inl e
      | Inr pv \<Rightarrow>
          (case expand_wildcards specs of
             Inl e \<Rightarrow> Inl e
           | Inr es \<Rightarrow> check_specs pv es))"

section \<open>Querying the package index\<close>

text \<open>
  \<open>conda search --json\<close> is outside the script. A run either exits with status 0 and
  prints a JSON object from package names to lists of records, each with a \<open>version\<close> and
  a \<open>depends\<close> list, or exits with another status (\<open>subprocess.CalledProcessError\<close>) and
  prints a JSON error body. Both are taken as already decoded by \<open>json.loads\<close>.
\<close>

datatype json =
  JNull | JBool bool | JNum int | JStr string | JArr "json list" | JObj "(string \<times> json) list"

record pkg_record =
  version :: string
  depends :: "string list"

datatype proc_result =
  Completed "(string \<times> pkg_record list) list"
| Failed json

type_synonym conda = "string \<Rightarrow> string \<Rightarrow> proc_result"

fun truthy :: "json \<Rightarrow> bool" where
  "truthy JNull = False"
| "truthy (JBool b) = b"
| "truthy (JNum n) = (n \<noteq> 0)"
| "truthy (JStr s) = (s \<noteq> [])"
| "truthy (JArr xs) = (xs \<noteq> [])"
| "truthy (JObj kvs) = (kvs \<noteq> [])"

definition conda_search :: "conda \<Rightarrow> string \<Rightarrow> string \<Rightarrow> error + pkg_record list" where
  \<comment> \<open>\<open>run platform pkg\<close> is the outcome of the command
      \<open>conda search --json --platform platform pkg\<close>; an absent key and the empty
      dictionary both read as no records\<close>
  "conda_search run platform pkg =
     (case run platform pkg of
        Completed out \<Rightarrow>
          Inr (case map_of out (last (split_str ''::'' pkg)) of None \<Rightarrow> [] | Some recs \<Rightarrow> recs)
      | Failed body \<Rightarrow>
          if truthy body
          then (case body of
                  JObj kvs \<Rightarrow>
                    if (case map_of kvs ''exception_name'' of None \<Rightarrow> JStr [] | Some v \<Rightarrow> v)
                       = JStr ''PackagesNotFoundError''
                    then Inr []
                    else Inl CalledProcessError
                | _ \<Rightarrow> Inl AttributeError)
          else Inl CalledProcessError)"

section \<open>Resolving the supported versions\<close>

text \<open>
  The set \<open>r_base_vers\<close> is a list without repetitions. \<open>list(r_base_vers)\<close> walks a set in
  an order fixed by the interpreter's string hashing, not by the script: it is the
  parameter \<open>listing\<close>, which returns the elements of the set, each once, in some order.
\<close>

fun base_versions :: "pkg_record list \<Rightarrow> string list \<Rightarrow> error + string list" where
  \<comment> \<open>the first loop of \<open>get_supported_versions\<close>: versions below 3.4.3 are skipped\<close>
  "base_versions [] acc = Inr acc"
| "base_versions (item # items) acc =
     (case traverse py_int (split_str ''.'' (version item)) of
        Inl e \<Rightarrow> Inl e
      | Inr t \<Rightarrow>
          if t < [3, 4, 3] then base_versions items acc
          else base_versions items
                 (if version item \<in> set acc then acc else acc @ [version item]))"

fun dep_constraints :: "string \<Rightarrow> pkg_record list \<Rightarrow> string list" where
  \<comment> \<open>the loop that builds \<open>pkg_vers\<close>\<close>
  "dep_constraints r_base [] = []"
| "dep_constraints r_base (item # items) =
     (case filter (starts_with (r_base @ ''-base'')) (depends item) of
        [] \<Rightarrow> dep_constraints r_base items
      | rver # _ \<Rightarrow>
          last (split_str '' '' (if rver = ''mro-base'' then ''mro-base ==3.4.3'' else rver))
            # dep_constraints r_base items)"

fun drop_unsupported :: "string list \<Rightarrow> string list \<Rightarrow> string list \<Rightarrow> error + string list" where
  \<comment> \<open>\<open>for ver in list(r_base_vers)\<close>: the second argument is the listing still to visit,
      the third the set\<close>
  "drop_unsupported pkg_vers [] vers = Inr vers"
| "drop_unsupported pkg_vers (ver # rest) vers =
     (case check_version ver pkg_vers of
        Inl e \<Rightarrow> Inl e
      | Inr ok \<Rightarrow> drop_unsupported pkg_vers rest (if ok then vers else removeAll ver vers))"

fun companions ::
  "(string list \<Rightarrow> string list) \<Rightarrow> conda \<Rightarrow> string \<Rightarrow> string \<Rightarrow> string list \<Rightarrow> string list
     \<Rightarrow> error + string list" where
  \<comment> \<open>\<open>for pkg in ['r::r-httr', 'r::r-jsonlite', 'r::r-testthat']\<close>\<close>
  "companions listing run platform r_base [] vers = Inr vers"
| "companions listing run platform r_base (pkg # pkgs) vers =
     (case conda_search run platform pkg of
        Inl e \<Rightarrow> Inl e
      | Inr out \<Rightarrow>
          (case drop_unsupported (dep_constraints r_base out) (listing vers) vers of
             Inl e \<Rightarrow> Inl e
           | Inr vers' \<Rightarrow> companions listing run platform r_base pkgs vers'))"

definition get_supported_versions ::
  "(string list \<Rightarrow> string list) \<Rightarrow> conda \<Rightarrow> string \<Rightarrow> string \<Rightarrow> error + string list" where
  "get_supported_versions listing run platform r_base =
     (case conda_search run platform (''r::'' @ r_base @ ''-base'') of
        Inl e \<Rightarrow> Inl e
      | Inr out \<Rightarrow>
          if out = [] then Inr []
          else (case base_versions out [] of
                  Inl e \<Rightarrow> Inl e
                | Inr vers \<Rightarrow>
                    (case companions listing run platform r_base
                            [''r::r-httr'', ''r::r-jsonlite'', ''r::r-testthat''] vers of
                       Inl e \<Rightarrow> Inl e
                     | Inr vers' \<Rightarrow> Inr (sort vers'))))"

section \<open>Sampling and writing the Tox file\<close>

definition sample :: "nat \<Rightarrow> string list \<Rightarrow> string set" where
  \<comment> \<open>lines 161 to 165 (and 170 to 174) of \<open>main\<close>; \<open>random.choice(info[1:-1])\<close> is
      \<open>info[1:-1][k]\<close> for a drawn index \<open>k\<close> below the length of that slice\<close>
  "sample k info =
     (if info = [] then {}
      else if length info > 2 then {hd info, last info, butlast (tl info) ! k}
      else {hd info, last info})"

definition env_name :: "string \<Rightarrow> string \<Rightarrow> string \<Rightarrow> string" where
  \<comment> \<open>\<open>f"{base}{ver.replace('.', '')}-{pkg}-cicd"\<close>\<close>
  "env_name base ver pkg = base @ filter (\<lambda>c. c \<noteq> CHR ''.'') ver @ ''-'' @ pkg @ ''-cicd''"

definition sorted_subset :: "(string \<times> string set) list \<Rightarrow> (string \<times> string list) list" where
  \<comment> \<open>\<open>sorted(subset.items())\<close> for the dictionary \<open>subset\<close>, given as the list
      \<open>subs\<close> of its items, with each \<open>sorted(vers)\<close>; the keys of a dictionary differ\<close>
  "sorted_subset subs = map (\<lambda>(base, vers). (base, sorted_list_of_set vers)) (sort_key fst subs)"

definition envlist_of :: "string \<Rightarrow> (string \<times> string set) list \<Rightarrow> string list" where
  "envlist_of pkg subs =
     concat (map (\<lambda>(base, vers). map (\<lambda>ver. env_name base ver pkg) vers) (sorted_subset subs))"

definition env_section :: "string \<Rightarrow> string \<Rightarrow> string \<Rightarrow> string list" where
  "env_section pkg base ver =
     [''# R '' @ ver,
      ''[testenv:'' @ env_name base ver pkg @ '']'',
      ''commands = {[testenv:'' @ pkg @ '']commands}'',
      ''conda_deps ='',
      ''    '' @ base @ ''-base=='' @ ver,
      ''    {[testenv]conda_deps}'',
      []]"

definition generated_envs :: "string \<Rightarrow> (string \<times> string set) list \<Rightarrow> string list" where
  \<comment> \<open>the list \<open>out\<close> of \<open>main\<close>\<close>
  "generated_envs pkg subs =
     [[], ''#'', ''# BEGIN GENERATED ENVIRONMENTS'', ''#'', [],
      ''[testenv:empty]'', ''commands ='', ''deps ='', ''conda_deps ='', []]
     @ concat (map (\<lambda>(base, vers).
                      [''#'', ''# '' @ base @ ''-base'', ''#'', []]
                      @ concat (map (env_section pkg base) vers))
                   (sorted_subset subs))"

definition envlist_block :: "string list \<Rightarrow> string list" where
  \<comment> \<open>what is written in place of the \<open>envlist\<close> line\<close>
  "envlist_block envlist =
     (''envlist ='' @ [nl]) # map (\<lambda>item. ''    '' @ item @ [nl]) envlist @ [''    empty'' @ [nl]]"

fun copy_lines :: "string list \<Rightarrow> string option \<Rightarrow> string list \<Rightarrow> string list" where
  \<comment> \<open>the two loops of \<open>main\<close> over the one iterator \<open>lines\<close>. \<open>None\<close>: the outer loop
      reads the next line. \<open>Some line\<close>: the inner loop reads it, \<open>line\<close> being the last
      line read so far; when the inner loop stops, \<open>tox_out.write(line)\<close> follows\<close>
  "copy_lines envlist None [] = []"
| "copy_lines envlist None (l # ls) =
     (if starts_with ''envlist'' l then envlist_block envlist @ copy_lines envlist (Some l) ls
      else l # copy_lines envlist None ls)"
| "copy_lines envlist (Some line) [] = [line]"
| "copy_lines envlist (Some line) (l # ls) =
     (if \<not> starts_with '' '' l then l # copy_lines envlist None ls
      else copy_lines envlist (Some l) ls)"

fun readlines_from :: "string \<Rightarrow> string \<Rightarrow> string list" where
  \<comment> \<open>\<open>tox_in.readlines()\<close>: every line keeps its newline\<close>
  "readlines_from cur [] = (if cur = [] then [] else [cur])"
| "readlines_from cur (c # cs) =
     (if c = nl then (cur @ [nl]) # readlines_from [] cs else readlines_from (cur @ [c]) cs)"

fun universal_newlines :: "string \<Rightarrow> string" where
  \<comment> \<open>a file opened in text mode: CR LF and a lone CR are read as LF\<close>
  "universal_newlines [] = []"
| "universal_newlines [c] = (if c = CHR 0x0D then [nl] else [c])"
| "universal_newlines (c # d # r) =
     (if c = CHR 0x0D \<and> d = nl then nl # universal_newlines r
      else if c = CHR 0x0D then nl # universal_newlines (d # r)
      else c # universal_newlines (d # r))"

definition readlines :: "string \<Rightarrow> string list" where
  \<comment> \<open>\<open>text\<close> is the decoded content of the file\<close>
  "readlines text = readlines_from [] (universal_newlines text)"

definition write_tox :: "string \<Rightarrow> string \<Rightarrow> (string \<times> string set) list \<Rightarrow> string" where
  \<comment> \<open>the text of the file that \<open>main\<close> writes for the driver \<open>pkg\<close>\<close>
  "write_tox pkg template subs =
     concat (copy_lines (envlist_of pkg subs) None (readlines template))
     @ concat (map (\<lambda>item. item @ [nl]) (generated_envs pkg subs))"

section \<open>The error kind of a failed query, and example indexes\<close>




definition alpha_index :: conda where
  \<comment> \<open>an index whose only \<open>r-base\<close> is a pre-release\<close>
  "alpha_index platform pkg =
     (if pkg = ''r::r-base''
      then Completed [(''r-base'', [\<lparr>version = ''3.5.0a1'', depends = []\<rparr>])]
      else Failed (JObj [(''exception_name'', JStr ''PackagesNotFoundError'')]))"

definition star_index :: conda where
  \<comment> \<open>an index whose companion packages accept any \<open>r-base\<close>\<close>
  "star_index platform pkg =
     (if pkg = ''r::r-base''
      then Completed [(''r-base'', [\<lparr>version = ''3.5.0'', depends = []\<rparr>])]
      else Completed [(last (split_str ''::'' pkg),
                       [\<lparr>version = ''1.0'', depends = [''r-base *'']\<rparr>])])"

definition two_index :: conda where
  \<comment> \<open>an index with three versions of \<open>r-base\<close> and two records for each companion\<close>
  "two_index platform pkg =
     (if pkg = ''r::r-base''
      then Completed [(''r-base'',
             [\<lparr>version = ''3.5.0'', depends = []\<rparr>,
              \<lparr>version = ''3.4.2'', depends = []\<rparr>,
              \<lparr>version = ''3.6.1'', depends = []\<rparr>])]
      else Completed [(last (split_str ''::'' pkg),
             [\<lparr>version = ''1.0'', depends = [''r-base 3.5*'']\<rparr>,
              \<lparr>version = ''1.1'', depends = [''r-base >=3.6,<3.7'']\<rparr>])])"

section \<open>What a constraint means\<close>








section \<open>Clauses without a token\<close>

definition blank :: "string \<Rightarrow> bool" where
  \<comment> \<open>a clause with no non-whitespace token: empty, or whitespace only\<close>
  "blank op = list_all is_space op"

definition has_blank_clause :: "string \<Rightarrow> bool" where
  "has_blank_clause spec =
     (\<exists>ap \<in> set (split_str '','' spec). \<exists>op \<in> set (split_str ''|'' ap). blank op)"

section \<open>Version keys\<close>

lemma traverse_all_ok:
  "(\<And>x. x \<in> set xs \<Longrightarrow> f x = Inr (g x)) \<Longrightarrow> traverse f xs = Inr (map g xs)"
  by (induction xs) auto

lemma traverse_raises:
  "\<forall>x e. f x = Inl e \<longrightarrow> e = E \<Longrightarrow> \<exists>x \<in> set xs. \<exists>e. f x = Inl e \<Longrightarrow> traverse f xs = Inl E"
proof (induction xs)
  case Nil
  then show ?case by simp
next
  case (Cons x xs)
  show ?case
  proof (cases "f x")
    case (Inl e)
    then show ?thesis using Cons.prems(1) by simp
  next
    case (Inr y)
    then have "\<exists>x \<in> set xs. \<exists>e. f x = Inl e" using Cons.prems(2) by auto
    then have "traverse f xs = Inl E" using Cons.IH Cons.prems(1) by blast
    then show ?thesis using Inr by simp
  qed
qed

lemma split_char_no_sep: "c \<notin> set s \<Longrightarrow> split_str [c] s = [s]"
  by (induction s) (auto simp: starts_with_def)

lemma digit_runs_from_append:
  "\<not> is_digit d \<Longrightarrow>
   digit_runs_from cur (p @ d # q) = digit_runs_from cur p @ digit_runs_from [] (d # q)"
  by (induction p arbitrary: cur) auto

lemma digit_runs_from_digits:
  "r \<in> set (digit_runs_from cur s) \<Longrightarrow> list_all is_digit cur \<Longrightarrow> r \<noteq> [] \<and> list_all is_digit r"
proof (induction s arbitrary: cur)
  case Nil
  then show ?case by (auto split: if_splits)
next
  case (Cons c s)
  show ?case
  proof (cases "is_digit c")
    case True
    then show ?thesis using Cons.IH [of "cur @ [c]"] Cons.prems by simp
  next
    case False
    then show ?thesis using Cons.IH [of "[]"] Cons.prems by (auto split: if_splits)
  qed
qed

lemma digit_runs_from_empty:
  "(digit_runs_from cur s = []) = (cur = [] \<and> (\<forall>c \<in> set s. \<not> is_digit c))"
  by (induction s arbitrary: cur) auto

lemma digit_runs_from_replicate:
  "is_digit d \<Longrightarrow>
   digit_runs_from cur (replicate n d)
     = (if cur @ replicate n d = [] then [] else [cur @ replicate n d])"
proof (induction n arbitrary: cur)
  case 0
  then show ?case by simp
next
  case (Suc n)
  have "digit_runs_from cur (replicate (Suc n) d) = digit_runs_from (cur @ [d]) (replicate n d)"
    using Suc.prems by simp
  also have "\<dots> = [(cur @ [d]) @ replicate n d]"
    using Suc.IH [OF Suc.prems, of "cur @ [d]"] by simp
  finally show ?case by simp
qed

lemma digit_runs_mem: "r \<in> set (digit_runs s) \<Longrightarrow> r \<noteq> [] \<and> list_all is_digit r"
  unfolding digit_runs_def by (rule digit_runs_from_digits [of r "[]" s]) simp_all

lemma grouped_all_digits: "r \<noteq> [] \<Longrightarrow> list_all is_digit r \<Longrightarrow> grouped_digits r"
  by (induction r rule: grouped_digits.induct) (auto simp: is_digit_def)

lemma digit_not_int_space: "is_digit c \<Longrightarrow> \<not> is_int_space c"
  by (auto simp: is_digit_def is_int_space_def)

lemma strip_digits:
  assumes ne: "r \<noteq> []" and ds: "list_all is_digit r"
  shows "strip r = r"
proof -
  have "\<not> is_int_space (hd r)" using ne ds by (cases r) (auto simp: digit_not_int_space)
  then have a: "dropWhile is_int_space r = r" using ne by (cases r) auto
  have "\<not> is_int_space (last r)" using ne ds by (auto simp: list_all_iff digit_not_int_space)
  then have b: "dropWhile is_int_space (rev r) = rev r"
    using ne by (cases "rev r") (auto simp: hd_rev)
  show ?thesis by (simp add: strip_def a b)
qed

lemma digits_value_foldl_nonneg:
  "0 \<le> a \<Longrightarrow> list_all is_digit r \<Longrightarrow> 0 \<le> foldl (\<lambda>acc c. 10 * acc + (int (of_char c) - 48)) a r"
  by (induction r arbitrary: a) (auto simp: is_digit_def)

lemma digits_value_nonneg: "list_all is_digit r \<Longrightarrow> 0 \<le> digits_value r"
  unfolding digits_value_def by (rule digits_value_foldl_nonneg) simp_all

lemma py_int_error: "py_int s = Inl e \<Longrightarrow> e = ValueError"
  by (auto simp: py_int_def Let_def split: if_splits)

lemma py_int_digits:
  assumes "r \<noteq> []" "list_all is_digit r"
  shows "py_int r = (if length r \<le> int_max_str_digits then Inr (digits_value r) else Inl ValueError)"
proof -
  have h: "hd r \<noteq> CHR ''-''" "hd r \<noteq> CHR ''+''"
    using assms by (cases r; auto simp: is_digit_def)+
  have f: "filter (\<lambda>c. c \<noteq> CHR ''_'') r = r"
    using assms(2) by (auto simp: list_all_iff is_digit_def intro!: filter_True)
  show ?thesis
    using assms h f by (simp add: py_int_def strip_digits grouped_all_digits Let_def)
qed

text \<open>
  \<open>int\<close> inside \<open>version_key\<close> only sees runs of digits, and the two zeros of the
  appended \<open>.0.0\<close> always follow the runs of the input: it fails exactly on a run that
  is longer than the limit.
\<close>

lemma version_key_eq:
  "version_key v =
     (if \<forall>r \<in> set (digit_runs (hd (split_str ''a'' v))). length r \<le> int_max_str_digits
      then Inr (take 3 (map digits_value (digit_runs (hd (split_str ''a'' v))) @ [0, 0]))
      else Inl ValueError)"
proof -
  let ?p = "hd (split_str ''a'' v)"
  let ?all = "digit_runs (?p @ ''.0.0'')"
  have nd: "\<not> is_digit CHR ''.''" by (simp add: is_digit_def)
  have tail: "digit_runs_from [] ''.0.0'' = [''0'', ''0'']" by (simp add: is_digit_def)
  have runs: "?all = digit_runs ?p @ [''0'', ''0'']"
    unfolding digit_runs_def using digit_runs_from_append [OF nd, of "[]" ?p "''0.0''"] tail by simp
  have z: "digits_value ''0'' = 0" by (simp add: digits_value_def)
  have one: "length ''0'' \<le> int_max_str_digits" by (simp add: int_max_str_digits_def)
  have each: "\<And>r. r \<in> set ?all \<Longrightarrow>
      py_int r = (if length r \<le> int_max_str_digits then Inr (digits_value r) else Inl ValueError)"
  proof -
    fix r assume "r \<in> set ?all"
    then have "r \<noteq> [] \<and> list_all is_digit r" by (rule digit_runs_mem)
    then show "py_int r = (if length r \<le> int_max_str_digits then Inr (digits_value r)
                          else Inl ValueError)"
      using py_int_digits by blast
  qed
  show ?thesis
  proof (cases "\<forall>r \<in> set (digit_runs ?p). length r \<le> int_max_str_digits")
    case True
    then have short: "\<forall>r \<in> set ?all. length r \<le> int_max_str_digits"
      using runs one by auto
    have "traverse py_int ?all = Inr (map digits_value ?all)"
    proof (rule traverse_all_ok)
      fix r assume r: "r \<in> set ?all"
      then show "py_int r = Inr (digits_value r)" using each [OF r] short by simp
    qed
    then have "version_key v = Inr (take 3 (map digits_value (digit_runs ?p) @ [0, 0]))"
      by (simp add: version_key_def runs z)
    then show ?thesis unfolding if_P [OF True] .
  next
    case False
    then obtain r where r: "r \<in> set (digit_runs ?p)" "\<not> length r \<le> int_max_str_digits"
      by blast
    then have "r \<in> set ?all" using runs by simp
    then have "py_int r = Inl ValueError" using each r(2) by simp
    then have "\<exists>x \<in> set ?all. \<exists>e. py_int x = Inl e" using \<open>r \<in> set ?all\<close> by blast
    then have "traverse py_int ?all = Inl ValueError"
      using traverse_raises [of py_int ValueError ?all] py_int_error by blast
    then have "version_key v = Inl ValueError" by (simp add: version_key_def)
    then show ?thesis unfolding if_not_P [OF False] .
  qed
qed

lemma version_key_error: "version_key v = Inl e \<Longrightarrow> e = ValueError"
  using version_key_eq [of v] by (auto split: if_splits)

lemma version_key_long_run:
  assumes "int_max_str_digits < n"
  shows "version_key (replicate n CHR ''1'') = Inl ValueError"
proof -
  have d: "is_digit CHR ''1''" by (simp add: is_digit_def)
  have n: "replicate n CHR ''1'' \<noteq> []" using assms by auto
  have "CHR ''a'' \<notin> set (replicate n CHR ''1'')" by auto
  then have "split_str [CHR ''a''] (replicate n CHR ''1'') = [replicate n CHR ''1'']"
    by (rule split_char_no_sep)
  then have p: "hd (split_str ''a'' (replicate n CHR ''1'')) = replicate n CHR ''1''" by simp
  have r: "digit_runs (replicate n CHR ''1'') = [replicate n CHR ''1'']"
    unfolding digit_runs_def using digit_runs_from_replicate [OF d, of "[]" n] n by simp
  have long: "\<not> (\<forall>r \<in> set (digit_runs (hd (split_str ''a'' (replicate n CHR ''1'')))).
              length r \<le> int_max_str_digits)"
    unfolding p r using assms by simp
  show ?thesis using version_key_eq [of "replicate n CHR ''1''"] unfolding if_not_P [OF long] .
qed

lemma version_key_4301: "version_key (replicate 4301 CHR ''1'') = Inl ValueError"
  by (rule version_key_long_run) (simp add: int_max_str_digits_def)

lemma version_key_231: "version_key ''2.3.1'' = Inr [2, 3, 1]"
  by code_simp

lemma version_key_34a0: "version_key ''3.4a0'' = Inr [3, 4, 0]"
  by code_simp

lemma version_key_10: "version_key ''1.0'' = Inr [1, 0, 0]"
  by code_simp

text \<open>
  C2, as the code has it. \<open>version_key\<close> returns for every string whose runs of digits
  before its first \<open>a\<close> have at most 4300 digits each, the limit of \<open>int\<close>, and what it
  returns is a tuple of non-negative integers. The tuple has three components when
  that part of the string holds a digit; otherwise it is the pair \<open>(0, 0)\<close>, the two
  zeros of the appended \<open>.0.0\<close>. On a string with a longer run of digits, as the one
  of 4301 digits \<open>1\<close>, it raises \<open>ValueError\<close>. The three versions of the claim give
  \<open>(2, 3, 1)\<close>, \<open>(3, 4, 0)\<close> and \<open>(1, 0, 0)\<close>.
\<close>

theorem version_key_total_shape:
  "(if \<forall>r \<in> set (digit_runs (hd (split_str ''a'' v))). length r \<le> int_max_str_digits
    then \<exists>t. version_key v = Inr t \<and> (\<forall>x \<in> set t. 0 \<le> x)
           \<and> (if \<exists>c \<in> set (hd (split_str ''a'' v)). is_digit c then length t = 3
               else t = [0, 0])
    else version_key v = Inl ValueError)
   \<and> version_key ''2.3.1'' = Inr [2, 3, 1]
   \<and> version_key ''3.4a0'' = Inr [3, 4, 0]
   \<and> version_key ''1.0'' = Inr [1, 0, 0]
   \<and> version_key (replicate 4301 CHR ''1'') = Inl ValueError"
proof -
  let ?rs = "digit_runs (hd (split_str ''a'' v))"
  let ?t = "take 3 (map digits_value ?rs @ [0, 0])"
  have "\<forall>r \<in> set ?rs. 0 \<le> digits_value r"
    using digit_runs_mem digits_value_nonneg by blast
  then have nn: "\<forall>x \<in> set (map digits_value ?rs @ [0, 0]). 0 \<le> x" by auto
  have a: "\<forall>x \<in> set ?t. 0 \<le> x" using nn by (meson in_set_takeD)
  have e: "(?rs = []) = (\<forall>c \<in> set (hd (split_str ''a'' v)). \<not> is_digit c)"
    unfolding digit_runs_def by (simp add: digit_runs_from_empty)
  have b: "(if \<exists>c \<in> set (hd (split_str ''a'' v)). is_digit c then length ?t = 3 else ?t = [0, 0])"
    using e by (cases ?rs) auto
  have main: "(if \<forall>r \<in> set ?rs. length r \<le> int_max_str_digits
    then \<exists>t. version_key v = Inr t \<and> (\<forall>x \<in> set t. 0 \<le> x)
           \<and> (if \<exists>c \<in> set (hd (split_str ''a'' v)). is_digit c then length t = 3
               else t = [0, 0])
    else version_key v = Inl ValueError)"
  proof (cases "\<forall>r \<in> set ?rs. length r \<le> int_max_str_digits")
    case True
    have "version_key v = Inr ?t" using version_key_eq [of v] unfolding if_P [OF True] .
    then have "\<exists>t. version_key v = Inr t \<and> (\<forall>x \<in> set t. 0 \<le> x)
           \<and> (if \<exists>c \<in> set (hd (split_str ''a'' v)). is_digit c then length t = 3
               else t = [0, 0])"
      using a b by blast
    then show ?thesis unfolding if_P [OF True] .
  next
    case False
    have "version_key v = Inl ValueError"
      using version_key_eq [of v] unfolding if_not_P [OF False] .
    then show ?thesis unfolding if_not_P [OF False] .
  qed
  show ?thesis
    using main version_key_231 version_key_34a0 version_key_10 version_key_4301 by blast
qed

theorem version_key_total_shape_witness:
  "digit_runs (hd (split_str ''a'' ''3.4a0'')) = [''3'', ''4'']
   \<and> (\<exists>c \<in> set (hd (split_str ''a'' ''3.4a0'')). is_digit c)
   \<and> (\<exists>t. version_key ''3.4a0'' = Inr t \<and> (\<forall>x \<in> set t. 0 \<le> x) \<and> length t = 3)"
proof -
  have r: "digit_runs (hd (split_str ''a'' ''3.4a0'')) = [''3'', ''4'']" by code_simp
  have s: "\<forall>r \<in> set (digit_runs (hd (split_str ''a'' ''3.4a0''))). length r \<le> int_max_str_digits"
    unfolding r by (simp add: int_max_str_digits_def)
  have h: "\<exists>c \<in> set (hd (split_str ''a'' ''3.4a0'')). is_digit c" by code_simp
  from version_key_total_shape [of "''3.4a0''"] have
    "if \<forall>r \<in> set (digit_runs (hd (split_str ''a'' ''3.4a0''))). length r \<le> int_max_str_digits
     then \<exists>t. version_key ''3.4a0'' = Inr t \<and> (\<forall>x \<in> set t. 0 \<le> x)
            \<and> (if \<exists>c \<in> set (hd (split_str ''a'' ''3.4a0'')). is_digit c then length t = 3
                else t = [0, 0])
     else version_key ''3.4a0'' = Inl ValueError"
    by (rule conjunct1)
  then obtain t where
    t: "version_key ''3.4a0'' = Inr t" "\<forall>x \<in> set t. 0 \<le> x"
       "if \<exists>c \<in> set (hd (split_str ''a'' ''3.4a0'')). is_digit c then length t = 3 else t = [0, 0]"
    unfolding if_P [OF s] by blast
  have "length t = 3" using t(3) unfolding if_P [OF h] .
  with t r h show ?thesis by blast
qed

text \<open>
  C2 as stated fails on the empty string, which holds no digit: the result is the pair
  \<open>(0, 0)\<close> and not the triple \<open>(0, 0, 0)\<close>.
\<close>

theorem version_key_empty_is_pair:
  "version_key [] = Inr [0, 0] \<and> version_key [] \<noteq> Inr [0, 0, 0]"
  by code_simp

section \<open>Wildcards\<close>

lemma expand_12_star: "expand_wildcards [''1.2.*''] = Inr [''>=1.2,<=1.3a0'']"
  by code_simp

lemma check_120: "check_version ''1.2.0'' [''1.2.*''] = Inr True"
  by code_simp

lemma check_129: "check_version ''1.2.9'' [''1.2.*''] = Inr True"
  by code_simp

lemma check_130: "check_version ''1.3.0'' [''1.2.*''] = Inr True"
  by code_simp

lemma check_119: "check_version ''1.1.9'' [''1.2.*''] = Inr False"
  by code_simp

text \<open>
  C1. The expansion of \<open>1.2.*\<close> is \<open>>=1.2,<=1.3a0\<close>: the upper bound is written with
  \<open><=\<close>, and \<open>version_key\<close> drops the \<open>a0\<close>, so the bound is \<open>(1, 3, 0)\<close> itself and is
  included. Versions 1.2.0 and 1.2.9 satisfy the constraint and 1.1.9 does not, as the
  claim says, but 1.3.0 satisfies it too.
\<close>

theorem wildcard_upper_bound_included:
  "expand_wildcards [''1.2.*''] = Inr [''>=1.2,<=1.3a0'']
   \<and> check_version ''1.2.0'' [''1.2.*''] = Inr True
   \<and> check_version ''1.2.9'' [''1.2.*''] = Inr True
   \<and> check_version ''1.1.9'' [''1.2.*''] = Inr False
   \<and> check_version ''1.3.0'' [''1.2.*''] = Inr True"
  using expand_12_star check_120 check_129 check_119 check_130 by blast

section \<open>Parse failures while resolving\<close>

lemma alpha_index_raises:
  "get_supported_versions listing alpha_index platform ''r'' = Inl ValueError"
  by code_simp

lemma star_index_raises:
  "get_supported_versions id star_index platform ''r'' = Inl ValueError"
  by code_simp

text \<open>
  C4. The comparison with the floor 3.4.3 and the expansion of a wildcard both call
  \<open>int\<close> on the pieces between the dots, not \<open>version_key\<close>. For an index whose \<open>r-base\<close>
  has version \<open>3.5.0a1\<close> the comparison with the floor raises \<open>ValueError\<close> on the piece
  \<open>0a1\<close>; for an index whose companion packages depend on \<open>r-base *\<close> the expansion
  raises it on the empty stem.
\<close>

theorem resolve_raises_on_version_shape:
  "get_supported_versions listing alpha_index platform ''r'' = Inl ValueError
   \<and> get_supported_versions id star_index platform ''r'' = Inl ValueError"
  using alpha_index_raises star_index_raises by blast

section \<open>The sampler\<close>

lemma distinct_nth_neq:
  "distinct xs \<Longrightarrow> i < length xs \<Longrightarrow> j < length xs \<Longrightarrow> i \<noteq> j \<Longrightarrow> xs ! i \<noteq> xs ! j"
  by (simp add: nth_eq_iff_index_eq)

lemma sample_empty: "sample k [] = {}"
  by (simp add: sample_def)

lemma sample_short:
  assumes "length info \<le> 2"
  shows "sample k info = set info"
proof -
  from assms consider "info = []" | a where "info = [a]" | a b where "info = [a, b]"
    by (cases info; simp; cases "tl info"; auto)
  then show ?thesis by cases (auto simp: sample_def)
qed

lemma sample_three:
  assumes d: "distinct info" and n: "3 \<le> length info" and k: "k < length info - 2"
  shows "hd info \<in> sample k info \<and> last info \<in> sample k info \<and> card (sample k info) = 3"
proof -
  have ne: "info \<noteq> []" using n by auto
  have h: "hd info = info ! 0" using ne by (simp add: hd_conv_nth)
  have l: "last info = info ! (length info - 1)" using ne by (simp add: last_conv_nth)
  have m: "butlast (tl info) ! k = info ! Suc k"
    using k by (simp add: nth_butlast nth_tl)
  have s: "sample k info = {info ! 0, info ! (length info - 1), info ! Suc k}"
    using ne n h l m by (simp add: sample_def)
  have n1: "info ! 0 \<noteq> info ! (length info - 1)"
    by (rule distinct_nth_neq [OF d]) (use n in arith)+
  have n2: "info ! 0 \<noteq> info ! Suc k"
    by (rule distinct_nth_neq [OF d]) (use n k in arith)+
  have n3: "info ! (length info - 1) \<noteq> info ! Suc k"
    by (rule distinct_nth_neq [OF d]) (use n k in arith)+
  show ?thesis using s h l n1 n2 n3 by simp
qed

lemma sample_four:
  "\<forall>k<2. ''1.0'' \<in> sample k [''1.0'', ''2.0'', ''3.0'', ''4.0'']
         \<and> ''4.0'' \<in> sample k [''1.0'', ''2.0'', ''3.0'', ''4.0'']
         \<and> card (sample k [''1.0'', ''2.0'', ''3.0'', ''4.0'']) = 3"
proof (intro allI impI)
  fix k :: nat assume "k < 2"
  then have "k = 0 \<or> k = 1" by auto
  then show "''1.0'' \<in> sample k [''1.0'', ''2.0'', ''3.0'', ''4.0'']
           \<and> ''4.0'' \<in> sample k [''1.0'', ''2.0'', ''3.0'', ''4.0'']
           \<and> card (sample k [''1.0'', ''2.0'', ''3.0'', ''4.0'']) = 3"
    by (auto simp: sample_def)
qed

text \<open>
  C7. Nothing is sampled from an empty list; a list of one or two versions is taken
  whole; from a list of three or more distinct versions the sample holds the first and
  the last and, whichever index \<open>k\<close> into the interior is drawn, has three elements. For
  the four versions 1.0 to 4.0 the two possible draws both give a sample of size three
  with 1.0 and 4.0.
\<close>

theorem sample_first_last_and_one:
  "sample k [] = {}
   \<and> (length info \<le> 2 \<longrightarrow> sample k info = set info)
   \<and> (distinct info \<and> 3 \<le> length info \<and> k < length info - 2 \<longrightarrow>
        hd info \<in> sample k info \<and> last info \<in> sample k info \<and> card (sample k info) = 3)
   \<and> (\<forall>j<2. ''1.0'' \<in> sample j [''1.0'', ''2.0'', ''3.0'', ''4.0'']
             \<and> ''4.0'' \<in> sample j [''1.0'', ''2.0'', ''3.0'', ''4.0'']
             \<and> card (sample j [''1.0'', ''2.0'', ''3.0'', ''4.0'']) = 3)"
  using sample_empty sample_short sample_three sample_four by blast

theorem sample_first_last_and_one_witness:
  "distinct [''1.0'', ''2.0'', ''3.0'', ''4.0'']
   \<and> 3 \<le> length [''1.0'', ''2.0'', ''3.0'', ''4.0'']
   \<and> (1::nat) < length [''1.0'', ''2.0'', ''3.0'', ''4.0''] - 2
   \<and> hd [''1.0'', ''2.0'', ''3.0'', ''4.0''] \<in> sample 1 [''1.0'', ''2.0'', ''3.0'', ''4.0'']
   \<and> last [''1.0'', ''2.0'', ''3.0'', ''4.0''] \<in> sample 1 [''1.0'', ''2.0'', ''3.0'', ''4.0'']
   \<and> card (sample 1 [''1.0'', ''2.0'', ''3.0'', ''4.0'']) = 3
   \<and> length [''1.0'', ''2.0''] \<le> 2
   \<and> sample 0 [''1.0'', ''2.0''] = set [''1.0'', ''2.0'']
   \<and> (0::nat) < 2
   \<and> card (sample 0 [''1.0'', ''2.0'', ''3.0'', ''4.0'']) = 3"
proof -
  have d: "distinct [''1.0'', ''2.0'', ''3.0'', ''4.0'']" by simp
  have n: "3 \<le> length [''1.0'', ''2.0'', ''3.0'', ''4.0'']" by simp
  have k: "(1::nat) < length [''1.0'', ''2.0'', ''3.0'', ''4.0''] - 2" by simp
  have s: "length [''1.0'', ''2.0''] \<le> 2" by simp
  have z: "(0::nat) < 2" by simp
  show ?thesis
    using d n k s z
      sample_first_last_and_one [of 1 "[''1.0'', ''2.0'', ''3.0'', ''4.0'']"]
      sample_first_last_and_one [of 0 "[''1.0'', ''2.0'']"]
    by blast
qed

section \<open>Failures of the query\<close>






section \<open>Writing the Tox file\<close>

lemma copy_lines_inner:
  "\<forall>c \<in> set conts. starts_with '' '' c \<Longrightarrow> \<not> starts_with '' '' stop \<Longrightarrow>
   copy_lines envlist (Some l0) (conts @ stop # rest) = stop # copy_lines envlist None rest"
  by (induction conts arbitrary: l0) auto

lemma copy_lines_outer:
  "\<forall>l \<in> set pre. \<not> starts_with ''envlist'' l \<Longrightarrow>
   copy_lines envlist None (pre @ ls) = pre @ copy_lines envlist None ls"
  by (induction pre) auto

text \<open>
  C5, as the code has it. Let the template be some lines \<open>pre\<close> that do not begin with
  \<open>envlist\<close>, a line \<open>e\<close> that does, lines \<open>conts\<close> that each begin with a space, a line
  \<open>stop\<close> that does not begin with a space, and the lines \<open>rest\<close>. Then \<open>pre\<close> is copied,
  \<open>e\<close> and \<open>conts\<close> are replaced by the line \<open>envlist =\<close>, one indented line for each
  environment name and the indented line \<open>empty\<close>, \<open>stop\<close> is copied, and the copy goes on
  with \<open>rest\<close>. Only a space continues the block: a line that begins with a tab is a
  \<open>stop\<close>.
\<close>

theorem envlist_block_replaced:
  assumes "\<forall>l \<in> set pre. \<not> starts_with ''envlist'' l"
    and "starts_with ''envlist'' e"
    and "\<forall>c \<in> set conts. starts_with '' '' c"
    and "\<not> starts_with '' '' stop"
  shows "copy_lines envlist None (pre @ e # conts @ stop # rest)
         = pre @ [''envlist ='' @ [nl]] @ map (\<lambda>item. ''    '' @ item @ [nl]) envlist
             @ [''    empty'' @ [nl]] @ stop # copy_lines envlist None rest"
  using assms by (simp add: copy_lines_outer copy_lines_inner envlist_block_def)

theorem envlist_block_replaced_witness:
  "\<not> starts_with ''envlist'' (''[tox]'' @ [nl])
   \<and> starts_with ''envlist'' (''envlist = foo'' @ [nl])
   \<and> starts_with '' '' (''    bar'' @ [nl])
   \<and> \<not> starts_with '' '' [nl]
   \<and> copy_lines [''r350-conda-cicd''] None
        ([''[tox]'' @ [nl]] @ (''envlist = foo'' @ [nl]) # [''    bar'' @ [nl]] @ [nl] # [''[testenv]'' @ [nl]])
      = [''[tox]'' @ [nl], ''envlist ='' @ [nl], ''    r350-conda-cicd'' @ [nl],
         ''    empty'' @ [nl], [nl], ''[testenv]'' @ [nl]]"
proof -
  have a: "\<forall>l \<in> set [''[tox]'' @ [nl]]. \<not> starts_with ''envlist'' l"
    by (simp add: starts_with_def)
  have b: "starts_with ''envlist'' (''envlist = foo'' @ [nl])"
    by (simp add: starts_with_def)
  have c: "\<forall>c \<in> set [''    bar'' @ [nl]]. starts_with '' '' c"
    by (simp add: starts_with_def)
  have d: "\<not> starts_with '' '' [nl]"
    by (simp add: starts_with_def nl_def)
  have r: "copy_lines [''r350-conda-cicd''] None [''[testenv]'' @ [nl]] = [''[testenv]'' @ [nl]]"
    by (simp add: starts_with_def)
  have a': "\<not> starts_with ''envlist'' (''[tox]'' @ [nl])"
    by (simp add: starts_with_def)
  have c': "starts_with '' '' (''    bar'' @ [nl])"
    by (simp add: starts_with_def)
  show ?thesis
    using a' b c' d envlist_block_replaced [OF a b c d, of "[''r350-conda-cicd'']" "[''[testenv]'' @ [nl]]"]
    unfolding r by simp
qed

text \<open>
  C5 as stated fails on a continuation line that begins with a tab: the line ends the
  block and is copied to the output.
\<close>

theorem tab_line_is_copied:
  "copy_lines [] None [''envlist = a'' @ [nl], CHR 0x09 # ''b'' @ [nl], ''[x]'' @ [nl]]
   = [''envlist ='' @ [nl], ''    empty'' @ [nl], CHR 0x09 # ''b'' @ [nl], ''[x]'' @ [nl]]"
  by code_simp

lemma example_copy:
  "copy_lines (envlist_of ''conda'' [(''r'', {''3.5.0''}), (''mro'', {})]) None
     (readlines (''envlist = foo'' @ [nl] @ ''    bar'' @ [nl]))
   = [''envlist ='' @ [nl], ''    r350-conda-cicd'' @ [nl], ''    empty'' @ [nl], ''    bar'' @ [nl]]"
  by code_simp

lemma example_envs:
  "generated_envs ''conda'' [(''r'', {''3.5.0''}), (''mro'', {})] =
     [[], ''#'', ''# BEGIN GENERATED ENVIRONMENTS'', ''#'', [],
      ''[testenv:empty]'', ''commands ='', ''deps ='', ''conda_deps ='', [],
      ''#'', ''# mro-base'', ''#'', [], ''#'', ''# r-base'', ''#'', [],
      ''# R 3.5.0'', ''[testenv:r350-conda-cicd]'',
      ''commands = {[testenv:conda]commands}'', ''conda_deps ='',
      ''    r-base==3.5.0'', ''    {[testenv]conda_deps}'', []]"
  by code_simp

text \<open>
  C6. For the template \<open>envlist = foo\<close>, \<open>    bar\<close> and the subset with 3.5.0 for \<open>r\<close> and
  nothing for \<open>mro\<close>, the generated sections are as the claim says, with
  \<open>[testenv:empty]\<close> and \<open>[testenv:r350-conda-cicd]\<close> pinning \<open>r-base==3.5.0\<close>. The
  \<open>envlist\<close> block is not: the inner loop reaches the end of the template without
  meeting a line that stops it, and the write after it writes the last line it read,
  so \<open>    bar\<close> follows \<open>    empty\<close> in the block.
\<close>

theorem example_envlist_keeps_bar:
  "copy_lines (envlist_of ''conda'' [(''r'', {''3.5.0''}), (''mro'', {})]) None
     (readlines (''envlist = foo'' @ [nl] @ ''    bar'' @ [nl]))
   = [''envlist ='' @ [nl], ''    r350-conda-cicd'' @ [nl], ''    empty'' @ [nl], ''    bar'' @ [nl]]
   \<and> write_tox ''conda'' (''envlist = foo'' @ [nl] @ ''    bar'' @ [nl])
        [(''r'', {''3.5.0''}), (''mro'', {})]
     = ''envlist ='' @ [nl] @ ''    r350-conda-cicd'' @ [nl] @ ''    empty'' @ [nl]
       @ ''    bar'' @ [nl]
       @ concat (map (\<lambda>item. item @ [nl])
           [[], ''#'', ''# BEGIN GENERATED ENVIRONMENTS'', ''#'', [],
            ''[testenv:empty]'', ''commands ='', ''deps ='', ''conda_deps ='', [],
            ''#'', ''# mro-base'', ''#'', [], ''#'', ''# r-base'', ''#'', [],
            ''# R 3.5.0'', ''[testenv:r350-conda-cicd]'',
            ''commands = {[testenv:conda]commands}'', ''conda_deps ='',
            ''    r-base==3.5.0'', ''    {[testenv]conda_deps}'', []])"
  unfolding write_tox_def example_copy example_envs by simp

section \<open>Determinism of the resolver\<close>

lemma drop_unsupported_ok:
  "\<forall>v \<in> set it. \<exists>b. check_version v pv = Inr b \<Longrightarrow>
   drop_unsupported pv it ws
     = Inr (filter (\<lambda>u. u \<notin> set it \<or> check_version u pv = Inr True) ws)"
proof (induction it arbitrary: ws)
  case Nil
  then show ?case by simp
next
  case (Cons v it)
  from Cons.prems obtain b where b: "check_version v pv = Inr b" by auto
  have rest: "\<forall>v \<in> set it. \<exists>b. check_version v pv = Inr b" using Cons.prems by simp
  show ?case
  proof (cases b)
    case True
    have "filter (\<lambda>u. u \<notin> set it \<or> check_version u pv = Inr True) ws
          = filter (\<lambda>u. u \<notin> set (v # it) \<or> check_version u pv = Inr True) ws"
      using b True by (intro filter_cong) auto
    then show ?thesis using b True Cons.IH [OF rest, of ws] by simp
  next
    case False
    have "filter (\<lambda>u. u \<notin> set it \<or> check_version u pv = Inr True) (removeAll v ws)
          = filter (\<lambda>u. u \<notin> set (v # it) \<or> check_version u pv = Inr True) ws"
      using b False by (induction ws) auto
    then show ?thesis using b False Cons.IH [OF rest, of "removeAll v ws"] by simp
  qed
qed

lemma drop_unsupported_returns:
  "drop_unsupported pv it ws = Inr ws' \<Longrightarrow> \<forall>v \<in> set it. \<exists>b. check_version v pv = Inr b"
  by (induction it arbitrary: ws) (auto split: sum.splits)

lemma drop_unsupported_order:
  assumes "set it = set it'" and "drop_unsupported pv it ws = Inr ws'"
  shows "drop_unsupported pv it' ws = Inr ws'"
proof -
  have ok: "\<forall>v \<in> set it. \<exists>b. check_version v pv = Inr b"
    using assms(2) by (rule drop_unsupported_returns)
  then have ok': "\<forall>v \<in> set it'. \<exists>b. check_version v pv = Inr b" using assms(1) by simp
  show ?thesis
    using drop_unsupported_ok [OF ok, of ws] drop_unsupported_ok [OF ok', of ws] assms by simp
qed

lemma companions_order:
  assumes "\<forall>xs. set (listing xs) = set xs" and "\<forall>xs. set (listing' xs) = set xs"
  shows "companions listing run platform r_base pkgs vers = Inr res \<Longrightarrow>
         companions listing' run platform r_base pkgs vers = Inr res"
proof (induction pkgs arbitrary: vers)
  case Nil
  then show ?case by simp
next
  case (Cons pkg pkgs)
  from Cons.prems obtain out where out: "conda_search run platform pkg = Inr out"
    by (auto split: sum.splits)
  from Cons.prems out obtain vers' where
    d: "drop_unsupported (dep_constraints r_base out) (listing vers) vers = Inr vers'"
    and c: "companions listing run platform r_base pkgs vers' = Inr res"
    by (auto split: sum.splits)
  have s: "set (listing vers) = set (listing' vers)" using assms by simp
  have d': "drop_unsupported (dep_constraints r_base out) (listing' vers) vers = Inr vers'"
    using drop_unsupported_order [OF s d] .
  show ?case using out d' Cons.IH [OF c] by simp
qed

lemma resolve_order:
  assumes "\<forall>xs. set (listing xs) = set xs" and "\<forall>xs. set (listing' xs) = set xs"
    and "get_supported_versions listing run platform r_base = Inr vs"
  shows "get_supported_versions listing' run platform r_base = Inr vs"
proof -
  from assms(3) obtain out where
    out: "conda_search run platform (''r::'' @ r_base @ ''-base'') = Inr out"
    by (auto simp: get_supported_versions_def split: sum.splits)
  show ?thesis
  proof (cases "out = []")
    case True
    then show ?thesis using out assms(3) by (simp add: get_supported_versions_def)
  next
    case False
    from assms(3) out False obtain vers where vers: "base_versions out [] = Inr vers"
      by (auto simp: get_supported_versions_def split: sum.splits)
    from assms(3) out False vers obtain res where
      res: "companions listing run platform r_base
              [''r::r-httr'', ''r::r-jsonlite'', ''r::r-testthat''] vers = Inr res"
      and vs: "vs = sort res"
      by (auto simp: get_supported_versions_def split: sum.splits)
    have "companions listing' run platform r_base
              [''r::r-httr'', ''r::r-jsonlite'', ''r::r-testthat''] vers = Inr res"
      using companions_order [OF assms(1) assms(2) res] .
    then show ?thesis using out False vers vs by (simp add: get_supported_versions_def)
  qed
qed

text \<open>
  C9. The versions that \<open>get_supported_versions\<close> returns depend on the index, the
  platform and the base package only. The one other thing a run depends on is the
  order in which the interpreter lists the set \<open>r_base_vers\<close>: for any two such orders,
  a call returns a list under one exactly when it returns the same list under the other.
\<close>

theorem resolve_independent_of_listing:
  assumes "\<forall>xs. set (listing xs) = set xs" and "\<forall>xs. set (listing' xs) = set xs"
  shows "(get_supported_versions listing run platform r_base = Inr vs)
         = (get_supported_versions listing' run platform r_base = Inr vs)"
  using resolve_order [OF assms(1) assms(2)] resolve_order [OF assms(2) assms(1)] by blast

lemma two_index_id:
  "get_supported_versions id two_index ''linux-64'' ''r'' = Inr [''3.5.0'', ''3.6.1'']"
  by code_simp

theorem resolve_independent_of_listing_witness:
  "get_supported_versions id two_index ''linux-64'' ''r'' = Inr [''3.5.0'', ''3.6.1'']
   \<and> get_supported_versions rev two_index ''linux-64'' ''r'' = Inr [''3.5.0'', ''3.6.1'']"
proof -
  have a: "\<forall>xs :: string list. set (id xs) = set xs" by simp
  have b: "\<forall>xs :: string list. set (rev xs) = set xs" by simp
  show ?thesis
    using two_index_id
      resolve_independent_of_listing [OF a b, of two_index "''linux-64''" "''r''" "[''3.5.0'', ''3.6.1'']"]
    by blast
qed

section \<open>Evaluating a spec list\<close>

lemma split_str_nonempty: "split_str sep s \<noteq> []"
  by (induction sep s rule: split_str.induct) (auto split: list.splits)






















lemma version_key_20: "version_key ''2.0'' = Inr [2, 0, 0]"
  by code_simp



section \<open>Specs that raise\<close>

lemma traverse_nth:
  "traverse f xs = Inr ys \<Longrightarrow> length ys = length xs \<and> (\<forall>i < length xs. f (xs ! i) = Inr (ys ! i))"
proof (induction xs arbitrary: ys)
  case Nil
  then show ?case by simp
next
  case (Cons x xs)
  from Cons.prems obtain y ys' where y: "f x = Inr y" and t: "traverse f xs = Inr ys'"
    and ys: "ys = y # ys'"
    by (auto split: sum.splits)
  from Cons.IH [OF t] have ih: "length ys' = length xs" "\<forall>i < length xs. f (xs ! i) = Inr (ys' ! i)"
    by simp_all
  show ?case
  proof (intro conjI allI impI)
    show "length ys = length (x # xs)" using ys ih by simp
  next
    fix i assume "i < length (x # xs)"
    then show "f ((x # xs) ! i) = Inr (ys ! i)" using y ys ih by (cases i) auto
  qed
qed

lemma traverse_fails:
  "\<exists>x \<in> set xs. \<exists>e. f x = Inl e \<Longrightarrow> \<exists>e. traverse f xs = Inl e"
proof (induction xs)
  case Nil
  then show ?case by simp
next
  case (Cons x xs)
  show ?case
  proof (cases "f x")
    case (Inl e)
    then show ?thesis by simp
  next
    case (Inr y)
    then have "\<exists>x \<in> set xs. \<exists>e. f x = Inl e" using Cons.prems by auto
    then obtain e where "traverse f xs = Inl e" using Cons.IH by blast
    then show ?thesis using Inr by simp
  qed
qed

lemma blank_no_match: "blank op \<Longrightarrow> match_clause op = []"
proof -
  assume b: "blank op"
  let ?core = "if op \<noteq> [] \<and> last op = nl then butlast op else op"
  have "list_all is_space ?core"
    using b by (auto simp: blank_def list_all_iff dest: in_set_butlastD)
  then have "?core = [] \<or> \<not> list_all (\<lambda>c. \<not> is_space c) ?core"
    by (cases ?core) auto
  then show ?thesis unfolding match_clause_def Let_def by auto
qed

lemma blank_or_term: "blank op \<Longrightarrow> or_term pv op = Inl IndexError"
  by (simp add: or_term_def blank_no_match)

lemma and_terms_blank:
  assumes "has_blank_clause spec"
  shows "\<exists>e. and_terms pv spec = Inl e"
proof -
  let ?f = "\<lambda>ap. traverse (or_term pv) (split_str ''|'' ap)"
  from assms obtain ap op where ap: "ap \<in> set (split_str '','' spec)"
    and op: "op \<in> set (split_str ''|'' ap)" and b: "blank op"
    by (auto simp: has_blank_clause_def)
  have "\<exists>x \<in> set (split_str ''|'' ap). \<exists>e. or_term pv x = Inl e"
    using op blank_or_term [OF b, of pv] by blast
  then have "\<exists>e. ?f ap = Inl e" by (rule traverse_fails)
  then have "\<exists>ap \<in> set (split_str '','' spec). \<exists>e. ?f ap = Inl e" using ap by blast
  then show ?thesis unfolding and_terms_def by (rule traverse_fails)
qed

lemma split_char_covers:
  "d \<in> set s \<Longrightarrow> d \<noteq> c \<Longrightarrow> \<exists>w \<in> set (split_str [c] s). d \<in> set w"
proof (induction s)
  case Nil
  then show ?case by simp
next
  case (Cons x xs)
  show ?case
  proof (cases "x = c")
    case True
    then have "d \<in> set xs" using Cons.prems by auto
    then show ?thesis using Cons.IH Cons.prems(2) True by (auto simp: starts_with_def)
  next
    case False
    obtain w ws where sp: "split_str [c] xs = w # ws"
      using split_str_nonempty [of "[c]" xs] by (cases "split_str [c] xs") auto
    have eq: "split_str [c] (x # xs) = (x # w) # ws"
      using False sp by (simp add: starts_with_def)
    show ?thesis
    proof (cases "d = x")
      case True
      then show ?thesis using eq by simp
    next
      case False
      then have "d \<in> set xs" using Cons.prems by auto
      then obtain u where "u \<in> set (w # ws)" "d \<in> set u"
        using Cons.IH Cons.prems(2) sp by auto
      then show ?thesis using eq by auto
    qed
  qed
qed

lemma in_dropWhile: "x \<in> set xs \<Longrightarrow> \<not> P x \<Longrightarrow> x \<in> set (dropWhile P xs)"
  by (induction xs) auto

lemma in_strip: "d \<in> set s \<Longrightarrow> \<not> is_int_space d \<Longrightarrow> d \<in> set (strip s)"
  unfolding strip_def by (simp add: in_dropWhile)

lemma grouped_digits_chars: "grouped_digits r \<Longrightarrow> c \<in> set r \<Longrightarrow> is_digit c \<or> c = CHR ''_''"
  by (induction r rule: grouped_digits.induct) (auto split: if_splits)

lemma py_int_bad_char:
  assumes "d \<in> set s" and "d = CHR '','' \<or> d = CHR ''|''"
  shows "py_int s = Inl ValueError"
proof -
  have ns: "\<not> is_int_space d" using assms(2) by (auto simp: is_int_space_def)
  have nd: "\<not> is_digit d" "d \<noteq> CHR ''_''" "d \<noteq> CHR ''-''" "d \<noteq> CHR ''+''"
    using assms(2) by (auto simp: is_digit_def)
  let ?t = "strip s"
  let ?body = "if ?t \<noteq> [] \<and> (hd ?t = CHR ''-'' \<or> hd ?t = CHR ''+'') then tl ?t else ?t"
  have t: "d \<in> set ?t" using assms(1) ns by (rule in_strip)
  have "d \<in> set ?body"
  proof (cases "?t \<noteq> [] \<and> (hd ?t = CHR ''-'' \<or> hd ?t = CHR ''+'')")
    case True
    then have "d \<noteq> hd ?t" using nd by auto
    then have "d \<in> set (tl ?t)" using t by (cases ?t) auto
    then show ?thesis unfolding if_P [OF True] .
  next
    case False
    show ?thesis unfolding if_not_P [OF False] using t .
  qed
  then have "\<not> grouped_digits ?body" using grouped_digits_chars nd by blast
  then show ?thesis by (simp add: py_int_def Let_def)
qed

lemma wildcard_stem_chars:
  assumes "wildcard_stem s = Some stem"
  shows "CHR ''*'' \<in> set s \<and> set s \<subseteq> set stem \<union> {CHR ''*'', CHR ''.''}"
proof -
  define tail where "tail = (if s \<noteq> [] \<and> last s = nl then [nl] else [])"
  define core where "core = (if s \<noteq> [] \<and> last s = nl then butlast s else s)"
  define b where "b = butlast core"
  define keep where "keep = (if b \<noteq> [] \<and> last b = CHR ''.'' then butlast b else b)"
  have s: "s = core @ tail"
  proof (cases "s \<noteq> [] \<and> last s = nl")
    case True
    then have "s = butlast s @ [nl]" using append_butlast_last_id [of s] by metis
    then show ?thesis unfolding core_def tail_def if_P [OF True] .
  next
    case False
    show ?thesis unfolding core_def tail_def if_not_P [OF False] by simp
  qed
  have w: "wildcard_stem s = (if core \<noteq> [] \<and> last core = CHR ''*'' then Some (keep @ tail) else None)"
    unfolding wildcard_stem_def Let_def keep_def b_def core_def tail_def ..
  from assms w have ne: "core \<noteq> []" and st: "last core = CHR ''*''" and stem: "stem = keep @ tail"
    by (auto split: if_splits)
  have core: "core = b @ [CHR ''*'']"
    unfolding b_def using append_butlast_last_id [OF ne] st by simp
  have b: "set b \<subseteq> set keep \<union> {CHR ''.''}"
  proof (cases "b \<noteq> [] \<and> last b = CHR ''.''")
    case True
    then have "butlast b @ [CHR ''.''] = b" using append_butlast_last_id [of b] by simp
    then have "set b = set (butlast b @ [CHR ''.''])" by simp
    then have "set b = set (butlast b) \<union> {CHR ''.''}" by simp
    moreover have "keep = butlast b" unfolding keep_def if_P [OF True] ..
    ultimately show ?thesis by simp
  next
    case False
    have "keep = b" unfolding keep_def if_not_P [OF False] ..
    then show ?thesis by auto
  qed
  have "set s = set b \<union> {CHR ''*''} \<union> set tail"
    unfolding s core by simp
  moreover have "set stem = set keep \<union> set tail" unfolding stem by simp
  ultimately show ?thesis using b by auto
qed

lemma blank_clause_separator:
  assumes "has_blank_clause s" and "x \<in> set s" and "\<not> is_space x"
  shows "CHR '','' \<in> set s \<or> CHR ''|'' \<in> set s"
proof (rule ccontr)
  assume "\<not> (CHR '','' \<in> set s \<or> CHR ''|'' \<in> set s)"
  then have "split_str '','' s = [s]" "split_str ''|'' s = [s]"
    by (simp_all add: split_char_no_sep)
  then have "blank s" using assms(1) by (simp add: has_blank_clause_def)
  then show False using assms(2,3) by (auto simp: blank_def list_all_iff)
qed

lemma blank_clause_not_expanded:
  assumes "has_blank_clause s" and "expand_wildcard s = Inr x"
  shows "x = s"
proof (cases "wildcard_stem s")
  case None
  then show ?thesis using assms(2) by (simp add: expand_wildcard_def)
next
  case (Some stem)
  from wildcard_stem_chars [OF Some] have star: "CHR ''*'' \<in> set s"
    and sub: "set s \<subseteq> set stem \<union> {CHR ''*'', CHR ''.''}" by simp_all
  have "\<not> is_space CHR ''*''" by (simp add: is_space_def)
  with blank_clause_separator [OF assms(1) star] obtain d where
    d: "d \<in> set s" "d = CHR '','' \<or> d = CHR ''|''" by blast
  then have "d \<in> set stem" using sub by auto
  moreover have "d \<noteq> CHR ''.''" using d(2) by auto
  ultimately obtain w where w: "w \<in> set (split_str ''.'' stem)" "d \<in> set w"
    using split_char_covers by blast
  have "py_int w = Inl ValueError" using w(2) d(2) by (rule py_int_bad_char)
  then have "traverse py_int (split_str ''.'' stem) = Inl ValueError"
    using traverse_raises [of py_int ValueError "split_str ''.'' stem"] py_int_error w(1) by blast
  then have "expand_wildcard s = Inl ValueError" using Some by (simp add: expand_wildcard_def)
  then show ?thesis using assms(2) by simp
qed

lemma check_specs_raise:
  "i < length es \<Longrightarrow> \<exists>e. and_terms pv (es ! i) = Inl e \<Longrightarrow>
   \<forall>j < i. check_specs pv [es ! j] \<noteq> Inr True \<Longrightarrow> \<exists>e. check_specs pv es = Inl e"
proof (induction es arbitrary: i)
  case Nil
  then show ?case by simp
next
  case (Cons s es)
  show ?case
  proof (cases i)
    case 0
    then show ?thesis using Cons.prems(2) by auto
  next
    case (Suc k)
    have first: "check_specs pv [s] \<noteq> Inr True" using Cons.prems(3) Suc by auto
    show ?thesis
    proof (cases "and_terms pv s")
      case (Inl e)
      then show ?thesis by simp
    next
      case (Inr expr)
      show ?thesis
      proof (cases "py_eval expr")
        case (Inl e)
        then show ?thesis using Inr by simp
      next
        case ev: (Inr b)
        have nb: "\<not> b" using first Inr ev by auto
        have k: "k < length es" using Cons.prems(1) Suc by simp
        have a: "\<exists>e. and_terms pv (es ! k) = Inl e" using Cons.prems(2) Suc by simp
        have p: "\<forall>j < k. check_specs pv [es ! j] \<noteq> Inr True"
        proof (intro allI impI)
          fix j assume "j < k"
          then have "Suc j < i" using Suc by simp
          then have "check_specs pv [(s # es) ! Suc j] \<noteq> Inr True" using Cons.prems(3) by blast
          then show "check_specs pv [es ! j] \<noteq> Inr True" by simp
        qed
        from Cons.IH [OF k a p] show ?thesis using Inr ev nb by simp
      qed
    qed
  qed
qed

lemma check_version_single:
  "version_key v = Inr pv \<Longrightarrow> expand_wildcard s = Inr x \<Longrightarrow>
   check_version v [s] = check_specs pv [x]"
  by (simp add: check_version_def expand_wildcards_def)

lemma blank_clause_raises:
  assumes i: "i < length specs" and b: "has_blank_clause (specs ! i)"
    and before: "\<forall>j < i. check_version v [specs ! j] \<noteq> Inr True"
  shows "\<exists>e. check_version v specs = Inl e"
proof (cases "version_key v")
  case (Inl e)
  then show ?thesis by (simp add: check_version_def)
next
  case (Inr pv)
  note pv = Inr
  show ?thesis
  proof (cases "expand_wildcards specs")
    case (Inl e)
    then show ?thesis using pv by (simp add: check_version_def)
  next
    case (Inr es)
    from traverse_nth [OF Inr [unfolded expand_wildcards_def]]
    have len: "length es = length specs"
      and nth: "\<forall>j < length specs. expand_wildcard (specs ! j) = Inr (es ! j)" by simp_all
    have "es ! i = specs ! i" using blank_clause_not_expanded [OF b] nth i by blast
    then have a: "\<exists>e. and_terms pv (es ! i) = Inl e" using and_terms_blank [OF b, of pv] by simp
    have p: "\<forall>j < i. check_specs pv [es ! j] \<noteq> Inr True"
    proof (intro allI impI)
      fix j assume j: "j < i"
      then have "expand_wildcard (specs ! j) = Inr (es ! j)" using nth i by simp
      from check_version_single [OF pv this]
      have "check_version v [specs ! j] = check_specs pv [es ! j]" .
      moreover have "check_version v [specs ! j] \<noteq> Inr True" using before j by blast
      ultimately show "check_specs pv [es ! j] \<noteq> Inr True" by metis
    qed
    have "\<exists>e. check_specs pv es = Inl e"
      using check_specs_raise [of i es pv] i len a p by simp
    then show ?thesis using pv Inr by (simp add: check_version_def)
  qed
qed

lemma empty_spec_blank: "has_blank_clause []"
  by code_simp

lemma trailing_comma_blank: "has_blank_clause ''>=3.4.3,''"
  by code_simp

lemma first_blank_raises:
  assumes "has_blank_clause s"
  shows "\<exists>e. check_version v [s] = Inl e"
proof (rule blank_clause_raises [of 0])
  show "0 < length [s]" by simp
  show "has_blank_clause ([s] ! 0)" using assms by simp
  show "\<forall>j < 0. check_version v [[s] ! j] \<noteq> Inr True" by simp
qed

lemma empty_spec_index_error:
  assumes "version_key v = Inr pv"
  shows "check_version v [[]] = Inl IndexError"
proof -
  have e: "expand_wildcard [] = Inr []" by code_simp
  have m: "match_clause [] = []" by code_simp
  have "and_terms pv [] = Inl IndexError"
    by (simp add: and_terms_def or_term_def m)
  then have "check_specs pv [[]] = Inl IndexError" by simp
  then show ?thesis using check_version_single [OF assms e] by simp
qed

lemma trailing_comma_index_error:
  assumes "version_key v = Inr pv"
  shows "check_version v [''>=3.4.3,''] = Inl IndexError"
proof -
  have e: "expand_wildcard ''>=3.4.3,'' = Inr ''>=3.4.3,''" by code_simp
  have c: "split_str '','' ''>=3.4.3,'' = [''>=3.4.3'', []]" by code_simp
  have p: "split_str ''|'' ''>=3.4.3'' = [''>=3.4.3'']" by code_simp
  have q: "split_str ''|'' [] = [[]]" by simp
  have m: "match_clause ''>=3.4.3'' = [(''>='', ''3.4.3'')]" by code_simp
  have k: "version_key ''3.4.3'' = Inr [3, 4, 3]" by code_simp
  have n: "match_clause [] = []" by code_simp
  have t1: "or_term pv ''>=3.4.3'' = Inr (pv, ''>='', [3, 4, 3])"
    by (simp add: or_term_def m k)
  have t2: "or_term pv [] = Inl IndexError"
    by (simp add: or_term_def n)
  have "and_terms pv ''>=3.4.3,'' = Inl IndexError"
    unfolding and_terms_def c by (simp add: p q t1 t2 del: split_str.simps)
  then have "check_specs pv [''>=3.4.3,''] = Inl IndexError" by simp
  then show ?thesis using check_version_single [OF assms e] by simp
qed

lemma token_matches:
  assumes "op \<noteq> []" and "list_all (\<lambda>c. \<not> is_space c) op"
  shows "or_term pv op \<noteq> Inl IndexError"
proof -
  have "\<not> is_space (last op)" using assms by (auto simp: list_all_iff)
  then have "last op \<noteq> nl" by (auto simp: is_space_def nl_def)
  then have "match_clause op \<noteq> []" using assms by (auto simp: match_clause_def Let_def)
  then obtain oper ver rest where m: "match_clause op = (oper, ver) # rest"
    by (cases "match_clause op") auto
  show ?thesis
  proof (cases "version_key ver")
    case (Inl e)
    then have "e = ValueError" by (rule version_key_error)
    then show ?thesis using m Inl by (simp add: or_term_def)
  next
    case (Inr t)
    then show ?thesis using m by (simp add: or_term_def)
  qed
qed

text \<open>
  C10, as the code has it. \<open>check_version\<close> raises on a spec list that holds, at some
  position, a spec with a clause that is empty or whitespace only, unless a spec before
  it is satisfied, on which the loop returns true before it parses the later spec. The
  lists with the one spec \<open>''\<close> or \<open>>=3.4.3,\<close> raise for every version, and what they
  raise is \<open>IndexError\<close> when the version itself parses. A clause that is a non-empty
  token without whitespace always matches the pattern.
\<close>

theorem blank_clause_raises_unless_satisfied:
  assumes "i < length specs" and "has_blank_clause (specs ! i)"
    and "\<forall>j < i. check_version v [specs ! j] \<noteq> Inr True"
  shows "(\<exists>e. check_version v specs = Inl e)
         \<and> (\<exists>e. check_version v [[]] = Inl e)
         \<and> (\<exists>e. check_version v [''>=3.4.3,''] = Inl e)
         \<and> (version_key v = Inr pv \<longrightarrow>
              check_version v [[]] = Inl IndexError
              \<and> check_version v [''>=3.4.3,''] = Inl IndexError)
         \<and> (op \<noteq> [] \<and> list_all (\<lambda>c. \<not> is_space c) op \<longrightarrow> or_term pv op \<noteq> Inl IndexError)"
  using blank_clause_raises [OF assms]
    first_blank_raises [OF empty_spec_blank] first_blank_raises [OF trailing_comma_blank]
    empty_spec_index_error trailing_comma_index_error token_matches
  by blast

theorem blank_clause_raises_unless_satisfied_witness:
  "has_blank_clause ''>=3.4.3,''
   \<and> check_version ''2.0'' [''<1.0''] = Inr False
   \<and> version_key ''2.0'' = Inr [2, 0, 0]
   \<and> (\<exists>e. check_version ''2.0'' [''<1.0'', ''>=3.4.3,''] = Inl e)
   \<and> check_version ''2.0'' [''>=3.4.3,''] = Inl IndexError"
proof -
  have f: "check_version ''2.0'' [''<1.0''] = Inr False" by code_simp
  have i: "(1::nat) < length [''<1.0'', ''>=3.4.3,'']" by simp
  have b: "has_blank_clause ([''<1.0'', ''>=3.4.3,''] ! 1)"
    using trailing_comma_blank by simp
  have p: "\<forall>j < (1::nat). check_version ''2.0'' [[''<1.0'', ''>=3.4.3,''] ! j] \<noteq> Inr True"
    using f by simp
  show ?thesis
    using f trailing_comma_blank version_key_20
      blank_clause_raises_unless_satisfied [OF i b p, of "[2, 0, 0]"]
    by blast
qed

text \<open>
  C10 as stated fails on a spec list that holds the empty spec after a spec that the
  version satisfies: the result is true and nothing is raised.
\<close>

theorem blank_clause_after_satisfied_spec:
  "has_blank_clause [] \<and> check_version ''2.0'' [''>=1.0'', []] = Inr True"
  by code_simp

end
